theory Spec2Isabelle
  imports Complex_Main "HOL-Library.Log_Nat"
begin

section \<open>The min-max heap of Codechef/MinMaxHeap.py\<close>

text \<open>
  The class \<^verbatim>\<open>MinMaxHeap\<close> keeps two attributes: the list \<^verbatim>\<open>self.heap\<close>, whose
  index 0 holds an unused sentinel, and the counter \<^verbatim>\<open>self.size\<close>. Elements are
  Python integers (\<open>int\<close>); indices and the counter never go below zero, so they
  are \<open>nat\<close>. A method becomes a function from the object's state to an outcome
  and the state it leaves behind; the outcome is \<open>Inl\<close> of an error when the method
  raises. The state is returned in both cases, because an exception leaves the
  object as it was at the statement that raised.
\<close>

subsection \<open>State and errors\<close>

record state =
  heap :: "int list"
  size_h :: nat

text \<open>
  Both failures of the source are Python's \<^verbatim>\<open>IndexError\<close>: the one the class raises
  itself with the message "Heap is empty.", and the one a list raises when it is read
  or written at an index it does not have.
\<close>

datatype error = Heap_is_empty | List_index_out_of_range

text \<open>\<^verbatim>\<open>__init__\<close>\<close>

definition init :: state where
  "init = \<lparr>heap = [0], size_h = 0\<rparr>"

subsection \<open>Index arithmetic\<close>

text \<open>
  \<^verbatim>\<open>_is_min_level\<close> computes \<^verbatim>\<open>math.floor(math.log2(i))\<close> on a Python integer.
  \<^verbatim>\<open>math.log2\<close> converts the integer to a double and takes the logarithm in double
  precision, so the value is rounded twice before it is floored. \<open>to_double\<close> is
  rounding to the nearest double: 53 significant bits, ties to the even neighbour
  (\<open>rne\<close> rounds to the nearest integer the same way). The logarithm is taken as the
  correctly rounded one, the double nearest to the exact logarithm. The exponent range
  of doubles is left out: the conversion stays inside it below \<open>2 ^ 1024\<close>, and a
  Python list holds fewer than \<open>2 ^ 63\<close> items.

  The floored value is the exact \<open>\<lfloor>log\<^sub>2 i\<rfloor>\<close> for every index below \<open>2 ^ 49 - 1\<close>
  and one more than that at \<open>2 ^ 49 - 1\<close>, where the logarithm rounds up to 49
  (lemmas \<open>floor_log2_double_exact\<close> and \<open>floor_log2_double_2_49\<close> below).
\<close>

definition rne :: "real \<Rightarrow> int" where
  "rne r =
     (let f = \<lfloor>r\<rfloor> in
      if r - of_int f < 1 / 2 then f
      else if r - of_int f > 1 / 2 then f + 1
      else if even f then f else f + 1)"

definition to_double :: "real \<Rightarrow> real" where
  "to_double x =
     (if x \<le> 0 then 0
      else (let e = \<lfloor>log 2 x\<rfloor>
            in of_int (rne (x / 2 powr (of_int e - 52))) * 2 powr (of_int e - 52)))"

definition log2_double :: "nat \<Rightarrow> real" where
  "log2_double i = to_double (log 2 (to_double (real i)))"

definition is_min_level :: "nat \<Rightarrow> bool" where
  "is_min_level i =
     (if i = 0 then False
      else (let level = \<lfloor>log2_double i\<rfloor> in level mod 2 = 0))"

definition parent :: "nat \<Rightarrow> nat" where
  "parent i = i div 2"

definition left_child :: "nat \<Rightarrow> nat" where
  "left_child i = 2 * i"

definition right_child :: "nat \<Rightarrow> nat" where
  "right_child i = 2 * i + 1"

subsection \<open>Insertion\<close>

text \<open>
  The tuple assignment \<^verbatim>\<open>self.heap[i], self.heap[j] = self.heap[j], self.heap[i]\<close>.
  At each of its four uses the comparison just before has read both indices, so it
  cannot raise there.
\<close>

definition swap :: "nat \<Rightarrow> nat \<Rightarrow> state \<Rightarrow> state" where
  "swap i j s = s\<lparr>heap := (heap s)[i := heap s ! j, j := heap s ! i]\<rparr>"

text \<open>
  The two grandparent chains call themselves, so they are partial functions into
  \<open>option\<close>: \<open>None\<close> would be a call that never returns.
\<close>

partial_function (option) bubble_up_min :: "nat \<Rightarrow> state \<Rightarrow> ((error + unit) \<times> state) option" where
  "bubble_up_min i s =
     (let grandparent_i = parent (parent i) in
      if grandparent_i \<ge> 1 then
        (if i < length (heap s) \<and> grandparent_i < length (heap s) then
           (if heap s ! i < heap s ! grandparent_i then
              bubble_up_min grandparent_i (swap i grandparent_i s)
            else Some (Inr (), s))
         else Some (Inl List_index_out_of_range, s))
      else Some (Inr (), s))"

partial_function (option) bubble_up_max :: "nat \<Rightarrow> state \<Rightarrow> ((error + unit) \<times> state) option" where
  "bubble_up_max i s =
     (let grandparent_i = parent (parent i) in
      if grandparent_i \<ge> 1 then
        (if i < length (heap s) \<and> grandparent_i < length (heap s) then
           (if heap s ! i > heap s ! grandparent_i then
              bubble_up_max grandparent_i (swap i grandparent_i s)
            else Some (Inr (), s))
         else Some (Inl List_index_out_of_range, s))
      else Some (Inr (), s))"

declare bubble_up_min.simps [code]
declare bubble_up_max.simps [code]

definition bubble_up :: "nat \<Rightarrow> state \<Rightarrow> ((error + unit) \<times> state) option" where
  "bubble_up i s =
     (if i = 1 then Some (Inr (), s)
      else
        (let parent_i = parent i in
         if is_min_level i then
           (if i < length (heap s) \<and> parent_i < length (heap s) then
              (if heap s ! i > heap s ! parent_i then
                 bubble_up_max parent_i (swap i parent_i s)
               else bubble_up_min i s)
            else Some (Inl List_index_out_of_range, s))
         else
           (if i < length (heap s) \<and> parent_i < length (heap s) then
              (if heap s ! i < heap s ! parent_i then
                 bubble_up_min parent_i (swap i parent_i s)
               else bubble_up_max i s)
            else Some (Inl List_index_out_of_range, s))))"

definition insert_h :: "int \<Rightarrow> state \<Rightarrow> ((error + unit) \<times> state) option" where
  "insert_h item s =
     (let s1 = s\<lparr>heap := heap s @ [item]\<rparr>;
          s2 = s1\<lparr>size_h := size_h s1 + 1\<rparr>
      in bubble_up (size_h s2) s2)"

subsection \<open>Retrieval\<close>

definition get_min :: "state \<Rightarrow> (error + int) \<times> state" where
  "get_min s =
     (if size_h s < 1 then (Inl Heap_is_empty, s)
      else if 1 < length (heap s) then (Inr (heap s ! 1), s)
      else (Inl List_index_out_of_range, s))"

definition get_max :: "state \<Rightarrow> (error + int) \<times> state" where
  "get_max s =
     (if size_h s < 1 then (Inl Heap_is_empty, s)
      else if size_h s = 1 then
        (if 1 < length (heap s) then (Inr (heap s ! 1), s)
         else (Inl List_index_out_of_range, s))
      else if size_h s = 2 then
        (if 2 < length (heap s) then (Inr (heap s ! 2), s)
         else (Inl List_index_out_of_range, s))
      else if 2 < length (heap s) \<and> 3 < length (heap s) then
        (Inr (max (heap s ! 2) (heap s ! 3)), s)
      else (Inl List_index_out_of_range, s))"

subsection \<open>Deletion of the minimum\<close>

text \<open>The body of \<^verbatim>\<open>_trickle_down\<close> is the single statement \<^verbatim>\<open>pass\<close>.\<close>

definition trickle_down :: "nat \<Rightarrow> state \<Rightarrow> state" where
  "trickle_down i s = s"

text \<open>
  In \<^verbatim>\<open>self.heap[1] = self.heap.pop()\<close> Python evaluates the right-hand side first:
  the list has already lost its last element when index 1 is written, and the write
  raises when the shortened list has no index 1. The counter is decremented only
  after the write.
\<close>

definition delete_min :: "state \<Rightarrow> (error + int) \<times> state" where
  "delete_min s =
     (if size_h s < 1 then (Inl Heap_is_empty, s)
      else if \<not> 1 < length (heap s) then (Inl List_index_out_of_range, s)
      else
        (let min_val = heap s ! 1;
             popped = last (heap s);
             s1 = s\<lparr>heap := butlast (heap s)\<rparr>
         in if \<not> 1 < length (heap s1) then (Inl List_index_out_of_range, s1)
            else
              (let s2 = s1\<lparr>heap := (heap s1)[1 := popped]\<rparr>;
                   s3 = s2\<lparr>size_h := size_h s2 - 1\<rparr>;
                   s4 = (if size_h s3 > 0 then trickle_down 1 s3 else s3)
               in (Inr min_val, s4))))"

subsection \<open>The public methods, called in sequence\<close>

text \<open>
  The class has four public methods that work on the heap (\<^verbatim>\<open>__str__\<close> only formats
  the two attributes and is left out). \<open>exec\<close> performs one call; \<open>run\<close> performs
  a list of calls on the same object, as a caller does that wraps each call in
  \<^verbatim>\<open>try\<close>/\<^verbatim>\<open>except\<close>, and records every outcome.
\<close>

datatype call = Insert int | Get_min | Get_max | Delete_min

datatype ret = No_value | Element int

definition returned :: "(error + int) \<times> state \<Rightarrow> ((error + ret) \<times> state) option" where
  "returned r = Some (map_sum id Element (fst r), snd r)"

fun exec :: "call \<Rightarrow> state \<Rightarrow> ((error + ret) \<times> state) option" where
  "exec (Insert item) s =
     (case insert_h item s of
        None \<Rightarrow> None
      | Some (r, s') \<Rightarrow> Some (map_sum id (\<lambda>_. No_value) r, s'))"
| "exec Get_min s = returned (get_min s)"
| "exec Get_max s = returned (get_max s)"
| "exec Delete_min s = returned (delete_min s)"

fun run :: "call list \<Rightarrow> state \<Rightarrow> ((error + ret) list \<times> state) option" where
  "run [] s = Some ([], s)"
| "run (c # cs) s =
     (case exec c s of
        None \<Rightarrow> None
      | Some (r, s') \<Rightarrow>
          (case run cs s' of
             None \<Rightarrow> None
           | Some (rs, s'') \<Rightarrow> Some (r # rs, s'')))"

subsection \<open>The invariants of the specification\<close>

text \<open>
  \<open>is_descendant a d\<close>: node \<open>d\<close> lies strictly below node \<open>a\<close> in the implicit tree,
  that is, repeated \<^const>\<open>parent\<close> steps lead from \<open>d\<close> to \<open>a\<close>.
\<close>

function is_descendant :: "nat \<Rightarrow> nat \<Rightarrow> bool" where
  "is_descendant a d =
     (if a = 0 \<or> d \<le> a then False
      else parent d = a \<or> is_descendant a (parent d))"
  by pat_completeness auto
termination
  by (relation "measure snd") (auto simp: parent_def)

declare is_descendant.simps [simp del]

text \<open>
  The level of a node is the exact \<open>\<lfloor>log\<^sub>2 i\<rfloor>\<close>, which is \<open>floorlog 2 i - 1\<close>
  (\<^const>\<open>floorlog\<close> is defined as \<open>nat \<lfloor>log b a\<rfloor> + 1\<close>); the even levels are the
  min-levels. This is the level of the tree, whatever \<^verbatim>\<open>_is_min_level\<close> computes.
\<close>

definition on_min_level :: "nat \<Rightarrow> bool" where
  "on_min_level i = (i \<noteq> 0 \<and> (floorlog 2 i - 1) mod 2 = 0)"

text \<open>
  The ordering a node \<open>a\<close> owes a node \<open>d\<close> below it: not above it on a min-level,
  not below it on a max-level.
\<close>

definition node_ok :: "int list \<Rightarrow> nat \<Rightarrow> nat \<Rightarrow> bool" where
  "node_ok h a d = (if on_min_level a then h ! a \<le> h ! d else h ! a \<ge> h ! d)"

definition heap_order :: "state \<Rightarrow> bool" where
  "heap_order s =
     (\<forall>d \<in> set [1 ..< Suc (size_h s)]. \<forall>a \<in> set [1 ..< Suc (size_h s)].
        is_descendant a d \<longrightarrow> node_ok (heap s) a d)"

text \<open>The sentinel followed by exactly \<open>size\<close> elements.\<close>

definition shape :: "state \<Rightarrow> bool" where
  "shape s = (length (heap s) = size_h s + 1)"

subsection \<open>Predicates for the proofs\<close>

text \<open>
  \<open>ordered h n\<close> is \<^const>\<open>heap_order\<close> on a list and a size, without the bounded
  quantifiers. \<open>ordered_below h n\<close> is the ordering among the nodes before the last one,
  which is what \<^verbatim>\<open>insert\<close> finds after its \<^verbatim>\<open>append\<close>. \<open>up_ok h n i\<close> is the state
  of a repair in progress at node \<open>i\<close>: every pair that does not have \<open>i\<close> as its lower
  node is in order, and \<open>i\<close> is in order with its ancestors on levels of the other kind.
\<close>

definition ordered :: "int list \<Rightarrow> nat \<Rightarrow> bool" where
  "ordered h n = (\<forall>a d. is_descendant a d \<longrightarrow> d \<le> n \<longrightarrow> node_ok h a d)"

definition ordered_below :: "int list \<Rightarrow> nat \<Rightarrow> bool" where
  "ordered_below h n = (\<forall>a d. is_descendant a d \<longrightarrow> d < n \<longrightarrow> node_ok h a d)"

definition up_ok :: "int list \<Rightarrow> nat \<Rightarrow> nat \<Rightarrow> bool" where
  "up_ok h n i =
     (1 \<le> i \<and> i \<le> n \<and>
      (\<forall>a d. is_descendant a d \<longrightarrow> d \<le> n \<longrightarrow> d \<noteq> i \<longrightarrow> node_ok h a d) \<and>
      (\<forall>a. is_descendant a i \<longrightarrow> on_min_level a \<noteq> on_min_level i \<longrightarrow> node_ok h a i))"

section \<open>Properties\<close>

subsection \<open>The rounded logarithm\<close>

text \<open>
  Integers below \<open>2 ^ 53\<close> are doubles. The logarithm of an index \<open>i\<close> with
  \<open>2 ^ k \<le> i < 2 ^ (k + 1)\<close> lies below \<open>k + 1\<close> by more than the distance
  \<open>(2 ^ (k + 1) - i) / 2 ^ (k + 1)\<close>, and doubles below 64 are at most \<open>2 ^ - 47\<close> apart:
  for \<open>i < 2 ^ 49 - 1\<close> the rounded logarithm stays below \<open>k + 1\<close>. At \<open>2 ^ 49 - 1\<close> the
  logarithm is within \<open>2 ^ - 48\<close> of 49 and rounds to it.
\<close>

lemma rne_of_int: "rne (of_int m) = m"
  by (simp add: rne_def)

lemma rne_ge: "of_int m \<le> r \<Longrightarrow> m \<le> rne r"
proof -
  assume "of_int m \<le> r"
  then have "m \<le> \<lfloor>r\<rfloor>" by (simp add: le_floor_iff)
  then show ?thesis unfolding rne_def Let_def by auto
qed

lemma rne_less: "r < of_int m - 1 / 2 \<Longrightarrow> rne r < m"
  unfolding rne_def Let_def by (auto; linarith)

lemma rne_near: "of_int m - 1 / 2 < r \<Longrightarrow> r < of_int m + 1 / 2 \<Longrightarrow> rne r = m"
  unfolding rne_def Let_def by (auto; linarith)

lemma ln_2_lower: "7 / 12 \<le> ln (2 :: real)"
proof -
  have a: "ln (1 - 1 / 4 :: real) \<le> - (1 / 4)" by (rule ln_one_minus_pos_upper_bound) auto
  have b: "ln (1 - 1 / 3 :: real) \<le> - (1 / 3)" by (rule ln_one_minus_pos_upper_bound) auto
  have "ln (2 :: real) = - ln (3 / 4) - ln (2 / 3)"
    using ln_mult [of "3 / 4 :: real" "2 / 3"] ln_inverse [of "2 :: real"] by (simp add: ln_div)
  with a b show ?thesis by simp
qed

lemma floor_log2_nat: "0 < i \<Longrightarrow> \<lfloor>log 2 (real i)\<rfloor> = int (floorlog 2 i - 1)"
  by (simp add: floorlog_def)

lemma two_powr_int_diff:
  assumes "k \<le> 52"
  shows "2 powr (of_int (int k) - 52) = 1 / (2 :: real) ^ (52 - k)"
proof -
  have "of_int (int k) - 52 = - real (52 - k)" using assms by simp
  then show ?thesis by (simp only: powr_minus_divide powr_realpow zero_less_numeral)
qed

lemma to_double_small_nat:
  assumes "0 < i" "i < 2 ^ 53"
  shows "to_double (real i) = real i"
proof -
  define k where "k = floorlog 2 i - 1"
  have k: "\<lfloor>log 2 (real i)\<rfloor> = int k" unfolding k_def using assms(1) by (rule floor_log2_nat)
  have "floorlog 2 i \<le> 53" using assms by (simp add: floorlog_le_iff)
  then have k52: "k \<le> 52" unfolding k_def by simp
  have sc: "2 powr (of_int (int k) - 52) = 1 / (2 :: real) ^ (52 - k)"
    using k52 by (rule two_powr_int_diff)
  have "real i / (1 / 2 ^ (52 - k)) = of_int (int (i * 2 ^ (52 - k)))" by simp
  then have "rne (real i / (1 / 2 ^ (52 - k))) = int (i * 2 ^ (52 - k))"
    by (simp only: rne_of_int)
  then show ?thesis using assms(1) k sc by (simp add: to_double_def Let_def)
qed

lemma to_double_scaled:
  assumes "0 < y" "\<lfloor>log 2 y\<rfloor> = int q" "q \<le> 52"
  shows "to_double y = of_int (rne (y * 2 ^ (52 - q))) / 2 ^ (52 - q)"
proof -
  have "2 powr (of_int (int q) - 52) = 1 / (2 :: real) ^ (52 - q)"
    using assms(3) by (rule two_powr_int_diff)
  then show ?thesis using assms(1,2) by (simp add: to_double_def Let_def)
qed

lemma to_double_floor:
  assumes y1: "1 \<le> y" and y64: "y < 64"
    and lo: "real k \<le> y" and hi: "y < real k + 1 - 1 / 2 ^ 48"
  shows "\<lfloor>to_double y\<rfloor> = int k"
proof -
  have ypos: "0 < y" using y1 by simp
  have "0 \<le> log 2 y" using y1 by simp
  then have e0: "0 \<le> \<lfloor>log 2 y\<rfloor>" by simp
  have "y < 2 powr 6" using y64 by simp
  then have "log 2 y < 6" using ypos by (simp add: log_less_iff)
  then have e5: "\<lfloor>log 2 y\<rfloor> \<le> 5" by (simp add: floor_le_iff)
  define q where "q = nat \<lfloor>log 2 y\<rfloor>"
  have "nat \<lfloor>log 2 y\<rfloor> \<le> nat 5" using e5 by (rule nat_mono)
  then have q5: "q \<le> 5" unfolding q_def by simp
  have "int (nat \<lfloor>log 2 y\<rfloor>) = \<lfloor>log 2 y\<rfloor>" using e0 by (rule nat_0_le)
  then have qe: "\<lfloor>log 2 y\<rfloor> = int q" unfolding q_def by simp
  note q = qe q5
  define P :: real where "P = 2 ^ (52 - q)"
  have Ppos: "0 < P" unfolding P_def by simp
  have "(2 :: real) ^ 47 \<le> 2 ^ (52 - q)" using q(2) by (intro power_increasing) auto
  then have P47: "2 ^ 47 \<le> P" unfolding P_def .
  have td: "to_double y = of_int (rne (y * P)) / P"
    unfolding P_def using ypos q(1) q(2) by (intro to_double_scaled) auto
  have Pint: "P = of_int (2 ^ (52 - q))" unfolding P_def by simp
  have "of_int (int k * 2 ^ (52 - q)) \<le> y * P"
    using lo Ppos unfolding Pint by (simp add: mult_right_mono)
  then have "int k * 2 ^ (52 - q) \<le> rne (y * P)" by (rule rne_ge)
  then have "of_int (int k * 2 ^ (52 - q)) \<le> (of_int (rne (y * P)) :: real)"
    by (simp only: of_int_le_iff)
  then have "real k * P \<le> of_int (rne (y * P))" unfolding Pint by simp
  then have lower: "real k \<le> to_double y"
    unfolding td using Ppos by (simp add: pos_le_divide_eq)
  have gap: "1 / 2 ^ 48 < real k + 1 - y" using hi by simp
  have "(1 / 2 :: real) = 1 / 2 ^ 48 * 2 ^ 47" by simp
  also have "\<dots> \<le> 1 / 2 ^ 48 * P" using P47 by (intro mult_left_mono) auto
  also have "\<dots> < (real k + 1 - y) * P" using gap Ppos by (rule mult_strict_right_mono)
  finally have "1 / 2 < (real k + 1 - y) * P" .
  then have "y * P < (real k + 1) * P - 1 / 2" by (simp add: algebra_simps)
  then have "y * P < of_int ((int k + 1) * 2 ^ (52 - q)) - 1 / 2" unfolding Pint by simp
  then have "rne (y * P) < (int k + 1) * 2 ^ (52 - q)" by (rule rne_less)
  then have "(of_int (rne (y * P)) :: real) < of_int ((int k + 1) * 2 ^ (52 - q))"
    by (simp only: of_int_less_iff)
  then have "of_int (rne (y * P)) < (real k + 1) * P" unfolding Pint by simp
  then have upper: "to_double y < real k + 1"
    unfolding td using Ppos by (simp add: pos_divide_less_eq)
  from lower upper show ?thesis by (intro floor_unique) auto
qed

lemma log2_one_minus:
  assumes "0 < d" "d < (1 :: real)"
  shows "log 2 (1 - d) < - d"
proof -
  have "ln (1 - d) \<le> - d" using assms by (intro ln_one_minus_pos_upper_bound) auto
  moreover have "0 < ln (2 :: real)" "ln (2 :: real) < 1" using ln_2_less_1 by auto
  ultimately have "ln (1 - d) / ln 2 \<le> - d / ln 2"
    using divide_right_mono [of "ln (1 - d)" "- d" "ln 2"] by simp
  moreover have "- d / ln 2 < - d"
    using assms(1) \<open>0 < ln (2 :: real)\<close> \<open>ln (2 :: real) < 1\<close>
    by (simp add: pos_divide_less_eq pos_less_divide_eq) 
  ultimately show ?thesis by (simp add: log_def)
qed

lemma log2_one_minus_lower:
  assumes "0 < x" "x \<le> 1 / (8 :: real)"
  shows "- (2 * x) < log 2 (1 - x)"
proof -
  have pos: "0 < 1 - x" using assms by simp
  have "ln (1 / (1 - x)) \<le> 1 / (1 - x) - 1" using pos by (intro ln_le_minus_one) simp
  also have "\<dots> = x / (1 - x)" using pos by (simp add: field_simps)
  also have "\<dots> \<le> x / (7 / 8)" using assms by (intro divide_left_mono) auto
  finally have a: "- ln (1 - x) \<le> 8 / 7 * x" using pos by (simp add: ln_div)
  have l2: "7 / 12 \<le> ln (2 :: real)" by (rule ln_2_lower)
  then have l2pos: "0 < ln (2 :: real)" by simp
  have "- log 2 (1 - x) = - ln (1 - x) / ln 2" by (simp add: log_def)
  also have "\<dots> \<le> (8 / 7 * x) / ln 2"
    using divide_right_mono [of "- ln (1 - x)" "8 / 7 * x" "ln 2"] a l2pos by simp
  also have "\<dots> \<le> (8 / 7 * x) / (7 / 12)" using l2 assms(1) by (intro divide_left_mono) auto
  also have "\<dots> < 2 * x" using assms(1) by simp
  finally show ?thesis by simp
qed

lemma log2_nat_below_power:
  assumes "0 < i" "i < 2 ^ n"
  shows "log 2 (real i) = real n + log 2 (1 - real (2 ^ n - i) / 2 ^ n)"
proof -
  have "real (2 ^ n - i) = 2 ^ n - real i" using assms by (simp add: of_nat_diff)
  then have "1 - real (2 ^ n - i) / 2 ^ n = real i / 2 ^ n" by (simp add: field_simps)
  then show ?thesis using assms by (simp add: log_divide log_nat_power)
qed

lemma floor_log2_double_exact:
  assumes i0: "0 < i" and ib: "i < 2 ^ 49 - 1"
  shows "\<lfloor>log2_double i\<rfloor> = int (floorlog 2 i - 1)"
proof (cases "i = 1")
  case True
  have "to_double (real (1 :: nat)) = real (1 :: nat)" by (rule to_double_small_nat) auto
  moreover have "floorlog 2 (1 :: nat) = 1" by (simp add: floorlog_def)
  ultimately show ?thesis using True by (simp add: log2_double_def to_double_def)
next
  case False
  with i0 have i2: "2 \<le> i" by simp
  define k where "k = floorlog 2 i - 1"
  have "floorlog 2 i \<noteq> 0" using i0 by (simp add: floorlog_eq_zero_iff)
  then have fl: "0 < floorlog 2 i" by simp
  then have k1: "floorlog 2 i = k + 1" unfolding k_def by simp
  have bounds: "2 ^ k \<le> i" "i < 2 ^ (k + 1)"
    using floorlog_bounds [of i 2] i0 k1 unfolding k_def by auto
  have "(2 :: nat) ^ 1 \<le> i" using i2 by simp
  then have "1 \<le> floorlog 2 i - 1" using floorlog_geI [of 2 2 i] by simp 
  then have kpos: "1 \<le> k" unfolding k_def .
  have "i < 2 ^ 49" using ib by simp
  then have "floorlog 2 i \<le> 49" by (simp add: floorlog_le_iff)
  then have k48: "k \<le> 48" using k1 by simp
  have td: "to_double (real i) = real i"
    using i0 ib by (intro to_double_small_nat) auto
  have lo: "real k \<le> log 2 (real i)" using bounds(1) by (rule le_log2_of_power)
  define d where "d = 2 ^ (k + 1) - i"
  have dpos: "0 < d" "d \<le> 2 ^ (k + 1)" unfolding d_def using bounds(2) by auto
  have dbig: "(2 :: nat) ^ (k + 1) \<le> d * 2 ^ 48"
  proof (cases "k = 48")
    case True
    then have "2 \<le> d" unfolding d_def using ib by simp
    then have "2 * 2 ^ 48 \<le> d * (2 :: nat) ^ 48" by (rule mult_le_mono1)
    then show ?thesis using True by simp
  next
    case False
    with k48 have "k + 1 \<le> 48" by simp
    then have "(2 :: nat) ^ (k + 1) \<le> 2 ^ 48" by (intro power_increasing) auto
    also have "\<dots> \<le> d * 2 ^ 48" using dpos(1) by simp
    finally show ?thesis .
  qed
  define dl :: real where "dl = real d / 2 ^ (k + 1)"
  have "real (2 ^ (k + 1)) \<le> real (d * 2 ^ 48)" using dbig by (simp only: of_nat_le_iff)
  then have dl48: "1 / 2 ^ 48 \<le> dl" unfolding dl_def by (simp add: field_simps)
  have "real d < 2 ^ (k + 1)" unfolding d_def using i0 bounds(2)
    by (simp add: of_nat_diff)
  then have dl1: "dl < 1" unfolding dl_def by simp
  have dl0: "0 < dl" unfolding dl_def using dpos(1) by simp
  have "log 2 (real i) = real (k + 1) + log 2 (1 - dl)"
    unfolding dl_def d_def using i0 bounds(2) by (rule log2_nat_below_power)
  moreover have "log 2 (1 - dl) < - dl" using dl0 dl1 by (rule log2_one_minus)
  ultimately have hi: "log 2 (real i) < real k + 1 - 1 / 2 ^ 48" using dl48 by simp
  have y1: "1 \<le> log 2 (real i)" using lo kpos by simp
  have y64: "log 2 (real i) < 64" using hi k48 by simp
  have "\<lfloor>to_double (log 2 (real i))\<rfloor> = int k" using y1 y64 lo hi by (rule to_double_floor)
  then show ?thesis unfolding log2_double_def td k_def .
qed

lemma floor_log2_double_2_49: "\<lfloor>log2_double (2 ^ 49 - 1)\<rfloor> = 49"
proof -
  let ?i = "2 ^ 49 - 1 :: nat"
  define y where "y = log 2 (real ?i)"
  have td: "to_double (real ?i) = real ?i" by (rule to_double_small_nat) auto
  have "log 2 (real ?i) = real 49 + log 2 (1 - real (2 ^ 49 - ?i) / 2 ^ 49)"
    by (rule log2_nat_below_power) auto
  then have yeq: "y = 49 + log 2 (1 - 1 / 2 ^ 49)" unfolding y_def by simp
  have "- (2 * (1 / 2 ^ 49)) < log 2 (1 - 1 / 2 ^ 49 :: real)"
    by (rule log2_one_minus_lower) auto
  then have ylo: "49 - 1 / 2 ^ 48 < y" unfolding yeq by simp
  have "log 2 (1 - 1 / 2 ^ 49 :: real) < - (1 / 2 ^ 49)" by (rule log2_one_minus) auto
  then have yhi: "y < 49" unfolding yeq by simp
  have ypos: "0 < y" using ylo by simp
  have "2 powr 5 \<le> y" using ylo by simp
  then have "5 \<le> log 2 y" using ypos by (simp add: le_log_iff)
  moreover have "y < 2 powr 6" using yhi by simp
  then have "log 2 y < 6" using ypos by (simp add: log_less_iff)
  ultimately have e: "\<lfloor>log 2 y\<rfloor> = 5" by (intro floor_unique) auto
  have "of_int (49 * 2 ^ 47) - 1 / 2 < y * 2 ^ 47" using ylo by (simp add: field_simps)
  moreover have "y * 2 ^ 47 < of_int (49 * 2 ^ 47) + 1 / 2" using yhi by simp
  ultimately have "rne (y * 2 ^ 47) = 49 * 2 ^ 47" by (rule rne_near)
  moreover have "to_double y = of_int (rne (y * 2 ^ (52 - 5))) / 2 ^ (52 - 5)"
    using ypos e by (intro to_double_scaled) auto
  ultimately have "to_double y = 49" by simp
  then show ?thesis unfolding log2_double_def td y_def [symmetric] by simp
qed

lemma is_min_level_exact:
  assumes "i < 2 ^ 49 - 1"
  shows "is_min_level i = on_min_level i"
proof (cases "i = 0")
  case True
  then show ?thesis by (simp add: is_min_level_def on_min_level_def)
next
  case False
  then have "\<lfloor>log2_double i\<rfloor> = int (floorlog 2 i - 1)"
    using assms by (intro floor_log2_double_exact) auto
  moreover have "(int (floorlog 2 i - 1) mod 2 = 0) = ((floorlog 2 i - 1) mod 2 = 0)"
    by presburger
  ultimately show ?thesis using False by (simp add: is_min_level_def on_min_level_def Let_def)
qed

lemma is_min_level_2_49: "\<not> is_min_level (2 ^ 49 - 1)"
  using floor_log2_double_2_49 by (simp add: is_min_level_def Let_def)

text \<open>
  The equation that evaluates \<^const>\<open>is_min_level\<close> on indices below \<open>2 ^ 48\<close> (those
  of at most 48 binary digits), where it is exact.
\<close>

lemma is_min_level_code [code]:
  "is_min_level i =
     (if i = 0 then False
      else if floorlog 2 i \<le> 48 then (floorlog 2 i - 1) mod 2 = 0
      else is_min_level i)"
proof (cases "floorlog 2 i \<le> 48")
  case True
  then have "i < 2 ^ 48" by (simp add: floorlog_le_iff)
  then have "is_min_level i = on_min_level i" by (intro is_min_level_exact) simp
  with True show ?thesis by (simp add: on_min_level_def)
next
  case False
  then show ?thesis by (simp add: is_min_level_def)
qed

subsection \<open>The implicit tree\<close>

lemma is_descendant_iff:
  "is_descendant a d \<longleftrightarrow> 0 < a \<and> a < d \<and> (d div 2 = a \<or> is_descendant a (d div 2))"
  by (subst is_descendant.simps) (auto simp: parent_def)

lemma is_descendant_less: "is_descendant a d \<Longrightarrow> 0 < a \<and> a < d"
  by (subst (asm) is_descendant_iff) simp

lemma is_descendant_cases:
  "is_descendant a d \<Longrightarrow> a = d div 2 \<or> is_descendant a (d div 2)"
  by (subst (asm) is_descendant_iff) auto

lemma is_descendant_parent: "2 \<le> d \<Longrightarrow> is_descendant (d div 2) d"
  by (subst is_descendant_iff) auto

lemma is_descendant_step:
  "is_descendant a (d div 2) \<Longrightarrow> is_descendant a d"
proof -
  assume h: "is_descendant a (d div 2)"
  then have "0 < a \<and> a < d div 2" by (rule is_descendant_less)
  then have "0 < a \<and> a < d" by auto
  with h show ?thesis by (subst is_descendant_iff) simp
qed

lemma is_descendant_trans:
  "is_descendant a b \<Longrightarrow> is_descendant b c \<Longrightarrow> is_descendant a c"
proof (induction c rule: less_induct)
  case (less c)
  from less.prems(2) have bc: "0 < b \<and> b < c" by (rule is_descendant_less)
  from less.prems(2) consider "b = c div 2" | "is_descendant b (c div 2)"
    using is_descendant_cases by blast
  then show ?case
  proof cases
    case 1
    with less.prems(1) show ?thesis by (auto intro: is_descendant_step)
  next
    case 2
    have "c div 2 < c" using bc by auto
    from less.IH [OF this less.prems(1) 2] show ?thesis by (rule is_descendant_step)
  qed
qed

lemma is_descendant_grandparent:
  "1 \<le> d div 2 div 2 \<Longrightarrow> is_descendant (d div 2 div 2) d"
  by (rule is_descendant_step, rule is_descendant_parent) auto

subsection \<open>Levels\<close>

lemma floorlog_half: "0 < i \<Longrightarrow> floorlog 2 i = floorlog 2 (i div 2) + 1"
  by (subst compute_floorlog) simp

lemma min_level_parent:
  assumes "2 \<le> i" shows "on_min_level (i div 2) = (\<not> on_min_level i)"
proof -
  have pos: "0 < i div 2" using assms by auto
  then have "floorlog 2 (i div 2) \<noteq> 0" by (simp add: floorlog_eq_zero_iff)
  then obtain k where k: "floorlog 2 (i div 2) = Suc k" by (cases "floorlog 2 (i div 2)") auto
  have "floorlog 2 i = Suc (Suc k)" using floorlog_half [of i] assms k by simp
  with k pos assms show ?thesis by (auto simp: on_min_level_def; presburger)
qed

lemma min_level_grandparent:
  "1 \<le> i div 2 div 2 \<Longrightarrow> on_min_level (i div 2 div 2) = on_min_level i"
proof -
  assume g: "1 \<le> i div 2 div 2"
  then have "2 \<le> i div 2" and "2 \<le> i" by auto
  then show ?thesis using min_level_parent [of i] min_level_parent [of "i div 2"] by simp
qed

subsection \<open>A repair in progress\<close>

lemma heap_order_iff: "heap_order s = ordered (heap s) (size_h s)"
proof
  assume h: "heap_order s"
  show "ordered (heap s) (size_h s)"
    unfolding ordered_def
  proof (intro allI impI)
    fix a d assume ad: "is_descendant a d" and d: "d \<le> size_h s"
    from ad have "0 < a \<and> a < d" by (rule is_descendant_less)
    with d have "d \<in> set [1 ..< Suc (size_h s)]" "a \<in> set [1 ..< Suc (size_h s)]" by auto
    with h ad show "node_ok (heap s) a d" unfolding heap_order_def by blast
  qed
next
  assume "ordered (heap s) (size_h s)"
  then show "heap_order s" unfolding heap_order_def ordered_def by auto
qed

lemma node_ok_trans:
  "on_min_level a = on_min_level b \<Longrightarrow> node_ok h a b \<Longrightarrow> node_ok h b c \<Longrightarrow> node_ok h a c"
  by (auto simp: node_ok_def split: if_splits)

lemma up_ok_done:
  assumes up: "up_ok h n i"
    and g: "i div 2 div 2 = 0 \<or> node_ok h (i div 2 div 2) i"
  shows "ordered h n"
  unfolding ordered_def
proof (intro allI impI)
  fix a d
  assume ad: "is_descendant a d" and dn: "d \<le> n"
  show "node_ok h a d"
  proof (cases "d = i")
    case False
    with up ad dn show ?thesis unfolding up_ok_def by blast
  next
    case di: True
    have i2: "2 \<le> i" using is_descendant_less [OF ad] di by auto
    show ?thesis
    proof (cases "on_min_level a = on_min_level i")
      case False
      with up ad di show ?thesis unfolding up_ok_def by blast
    next
      case same: True
      have "a \<noteq> i div 2" using same min_level_parent [OF i2] by auto
      with ad di have ap: "is_descendant a (i div 2)"
        using is_descendant_cases by blast
      have gpos: "1 \<le> i div 2 div 2" using is_descendant_less [OF ap] by auto
      with g have gi: "node_ok h (i div 2 div 2) i" by simp
      show ?thesis
      proof (cases "a = i div 2 div 2")
        case True
        with gi di show ?thesis by simp
      next
        case False
        with ap have ag: "is_descendant a (i div 2 div 2)"
          using is_descendant_cases by blast
        have "i div 2 div 2 \<noteq> i" "i div 2 div 2 \<le> n" using i2 up unfolding up_ok_def by auto
        with up ag have "node_ok h a (i div 2 div 2)" unfolding up_ok_def by blast
        moreover have "on_min_level a = on_min_level (i div 2 div 2)"
          using same min_level_grandparent [OF gpos] by simp
        ultimately show ?thesis using gi di node_ok_trans by blast
      qed
    qed
  qed
qed

lemma up_ok_step:
  assumes up: "up_ok h n i"
    and g: "g = i div 2 div 2" "1 \<le> g"
    and viol: "\<not> node_ok h g i"
    and len: "length h = n + 1"
  shows "up_ok (h[i := h ! g, g := h ! i]) n g"
proof -
  define h' where "h' = h[i := h ! g, g := h ! i]"
  define p where "p = i div 2"
  have i_n: "1 \<le> i" "i \<le> n" using up unfolding up_ok_def by auto
  have gi: "g < i" "g < p" "p < i" "2 \<le> p" "2 \<le> i" using g unfolding p_def by auto
  have old: "\<And>a d. is_descendant a d \<Longrightarrow> d \<le> n \<Longrightarrow> d \<noteq> i \<Longrightarrow> node_ok h a d"
    using up unfolding up_ok_def by blast
  have old2: "\<And>a. is_descendant a i \<Longrightarrow> on_min_level a \<noteq> on_min_level i \<Longrightarrow> node_ok h a i"
    using up unfolding up_ok_def by blast
  have Dpi: "is_descendant p i" unfolding p_def using gi by (intro is_descendant_parent)
  have Dgp: "is_descendant g p" using is_descendant_parent [of p] gi g unfolding p_def by simp
  have Dgi: "is_descendant g i" using Dgp Dpi by (rule is_descendant_trans)
  have lg: "on_min_level g = on_min_level i" using min_level_grandparent [of i] g by simp
  have lp: "on_min_level p = (\<not> on_min_level i)" unfolding p_def using gi by (intro min_level_parent)
  have at_i: "h' ! i = h ! g" unfolding h'_def using gi i_n len by simp
  have at_g: "h' ! g = h ! i" unfolding h'_def using gi i_n len by simp
  have other: "\<And>k. k \<noteq> i \<Longrightarrow> k \<noteq> g \<Longrightarrow> h' ! k = h ! k" unfolding h'_def by simp
  have c1: "node_ok h' a d" if ad: "is_descendant a d" and dn: "d \<le> n" and dg: "d \<noteq> g" for a d
  proof (cases "d = i")
    case di: True
    from ad di consider "a = p" | "a = g" | "is_descendant a g"
      using is_descendant_cases [of a i] is_descendant_cases [of a p] g unfolding p_def by blast
    then show ?thesis
    proof cases
      case 1
      have "node_ok h g p" using old [OF Dgp] gi i_n by simp
      then show ?thesis using 1 di lg lp gi at_i other [of p]
        by (auto simp: node_ok_def split: if_splits)
    next
      case 2
      then show ?thesis using viol di at_i at_g
        by (auto simp: node_ok_def split: if_splits)
    next
      case 3
      then have "a < g" using is_descendant_less by blast
      moreover have "node_ok h a g" using old [OF 3] gi i_n by simp
      ultimately show ?thesis using di gi at_i other [of a]
        by (auto simp: node_ok_def split: if_splits)
    qed
  next
    case dni: False
    have d_other: "h' ! d = h ! d" using other dni dg by simp
    consider "a = i" | "a = g" | "a \<noteq> i \<and> a \<noteq> g" by blast
    then show ?thesis
    proof cases
      case 1
      then have "is_descendant g d" using Dgi ad is_descendant_trans by blast
      then have "node_ok h g d" using old dn dni by simp
      then show ?thesis using 1 lg at_i d_other
        by (auto simp: node_ok_def split: if_splits)
    next
      case 2
      then have "node_ok h g d" using old ad dn dni by simp
      then show ?thesis using 2 viol at_g d_other
        by (auto simp: node_ok_def split: if_splits)
    next
      case 3
      then have "h' ! a = h ! a" using other by simp
      moreover have "node_ok h a d" using old ad dn dni by simp
      ultimately show ?thesis using d_other by (simp add: node_ok_def)
    qed
  qed
  have c2: "node_ok h' a g" if ag: "is_descendant a g" and lv: "on_min_level a \<noteq> on_min_level g" for a
  proof -
    have "a < g" using ag is_descendant_less by blast
    then have "h' ! a = h ! a" using other gi by simp
    moreover have "node_ok h a i" using old2 is_descendant_trans [OF ag Dgi] lv lg by simp
    ultimately show ?thesis using at_g by (simp add: node_ok_def)
  qed
  show ?thesis
    unfolding up_ok_def h'_def [symmetric]
    using g gi i_n c1 c2 by auto
qed

subsection \<open>The repair loops return\<close>

lemma bubble_up_min_returns: "\<exists>r. bubble_up_min i s = Some r"
proof (induction i arbitrary: s rule: less_induct)
  case (less i)
  show ?case
  proof (cases "1 \<le> i div 2 div 2 \<and> i < length (heap s) \<and> i div 2 div 2 < length (heap s)
      \<and> heap s ! i < heap s ! (i div 2 div 2)")
    case True
    then have "i div 2 div 2 < i" by auto
    from less.IH [OF this, of "swap i (i div 2 div 2) s"] True show ?thesis
      by (subst bubble_up_min.simps) (simp add: parent_def Let_def)
  next
    case False
    then show ?thesis
      by (subst bubble_up_min.simps) (auto simp: parent_def Let_def)
  qed
qed

lemma bubble_up_max_returns: "\<exists>r. bubble_up_max i s = Some r"
proof (induction i arbitrary: s rule: less_induct)
  case (less i)
  show ?case
  proof (cases "1 \<le> i div 2 div 2 \<and> i < length (heap s) \<and> i div 2 div 2 < length (heap s)
      \<and> heap s ! i > heap s ! (i div 2 div 2)")
    case True
    then have "i div 2 div 2 < i" by auto
    from less.IH [OF this, of "swap i (i div 2 div 2) s"] True show ?thesis
      by (subst bubble_up_max.simps) (simp add: parent_def Let_def)
  next
    case False
    then show ?thesis
      by (subst bubble_up_max.simps) (auto simp: parent_def Let_def)
  qed
qed

lemma bubble_up_returns: "\<exists>r. bubble_up i s = Some r"
  unfolding bubble_up_def Let_def
  using bubble_up_min_returns bubble_up_max_returns by simp

lemma insert_h_returns: "\<exists>r. insert_h item s = Some r"
  unfolding insert_h_def Let_def by (rule bubble_up_returns)

lemma exec_returns: "\<exists>r. exec c s = Some r"
proof (cases c)
  case (Insert item)
  obtain r s' where "insert_h item s = Some (r, s')"
    using insert_h_returns [of item s] by fastforce
  with Insert show ?thesis by simp
qed (simp_all add: returned_def)

lemma run_returns: "\<exists>r. run cs s = Some r"
proof (induction cs arbitrary: s)
  case Nil
  show ?case by simp
next
  case (Cons c cs)
  obtain r s' where e: "exec c s = Some (r, s')" using exec_returns [of c s] by fastforce
  obtain rs s'' where "run cs s' = Some (rs, s'')" using Cons [of s'] by fastforce
  with e show ?case by simp
qed

subsection \<open>The repair restores the order\<close>

text \<open>
  Each grandparent chain, started at a node of its own kind of level where only the
  comparisons with the ancestors of the same kind may fail, never raises and ends with
  every pair in order.
\<close>

lemma bubble_up_min_correct:
  assumes "up_ok (heap s) n i" "on_min_level i" "length (heap s) = n + 1"
  shows "\<exists>s'. bubble_up_min i s = Some (Inr (), s') \<and> size_h s' = size_h s \<and>
           length (heap s') = n + 1 \<and> ordered (heap s') n"
  using assms
proof (induction i arbitrary: s rule: less_induct)
  case (less i)
  let ?g = "i div 2 div 2"
  have i_n: "i \<le> n" using less.prems(1) unfolding up_ok_def by simp
  show ?case
  proof (cases "1 \<le> ?g")
    case False
    then have "bubble_up_min i s = Some (Inr (), s)"
      by (subst bubble_up_min.simps) (simp add: parent_def Let_def)
    moreover have "ordered (heap s) n" using up_ok_done [OF less.prems(1)] False by simp
    ultimately show ?thesis using less.prems by simp
  next
    case g1: True
    then have gi: "?g < i" by auto
    have lg: "on_min_level ?g" using min_level_grandparent [OF g1] less.prems(2) by simp
    show ?thesis
    proof (cases "heap s ! i < heap s ! ?g")
      case False
      then have "bubble_up_min i s = Some (Inr (), s)"
        using g1 gi i_n less.prems(3) by (subst bubble_up_min.simps) (simp add: parent_def Let_def)
      moreover have "node_ok (heap s) ?g i" using False lg by (simp add: node_ok_def)
      then have "ordered (heap s) n" using up_ok_done [OF less.prems(1)] by simp
      ultimately show ?thesis using less.prems by simp
    next
      case True
      then have eq: "bubble_up_min i s = bubble_up_min ?g (swap i ?g s)"
        using g1 gi i_n less.prems(3) by (subst bubble_up_min.simps) (simp add: parent_def Let_def)
      have "\<not> node_ok (heap s) ?g i" using True lg by (simp add: node_ok_def)
      then have "up_ok (heap (swap i ?g s)) n ?g"
        using up_ok_step [OF less.prems(1) refl g1 _ less.prems(3)] by (simp add: swap_def)
      moreover have "length (heap (swap i ?g s)) = n + 1" using less.prems(3) by (simp add: swap_def)
      ultimately obtain s' where "bubble_up_min ?g (swap i ?g s) = Some (Inr (), s')"
        "size_h s' = size_h (swap i ?g s)" "length (heap s') = n + 1" "ordered (heap s') n"
        using less.IH [OF gi _ lg] by blast
      then show ?thesis using eq by (simp add: swap_def)
    qed
  qed
qed

lemma bubble_up_max_correct:
  assumes "up_ok (heap s) n i" "\<not> on_min_level i" "length (heap s) = n + 1"
  shows "\<exists>s'. bubble_up_max i s = Some (Inr (), s') \<and> size_h s' = size_h s \<and>
           length (heap s') = n + 1 \<and> ordered (heap s') n"
  using assms
proof (induction i arbitrary: s rule: less_induct)
  case (less i)
  let ?g = "i div 2 div 2"
  have i_n: "i \<le> n" using less.prems(1) unfolding up_ok_def by simp
  show ?case
  proof (cases "1 \<le> ?g")
    case False
    then have "bubble_up_max i s = Some (Inr (), s)"
      by (subst bubble_up_max.simps) (simp add: parent_def Let_def)
    moreover have "ordered (heap s) n" using up_ok_done [OF less.prems(1)] False by simp
    ultimately show ?thesis using less.prems by simp
  next
    case g1: True
    then have gi: "?g < i" by auto
    have lg: "\<not> on_min_level ?g" using min_level_grandparent [OF g1] less.prems(2) by simp
    show ?thesis
    proof (cases "heap s ! i > heap s ! ?g")
      case False
      then have "bubble_up_max i s = Some (Inr (), s)"
        using g1 gi i_n less.prems(3) by (subst bubble_up_max.simps) (simp add: parent_def Let_def)
      moreover have "node_ok (heap s) ?g i" using False lg by (simp add: node_ok_def)
      then have "ordered (heap s) n" using up_ok_done [OF less.prems(1)] by simp
      ultimately show ?thesis using less.prems by simp
    next
      case True
      then have eq: "bubble_up_max i s = bubble_up_max ?g (swap i ?g s)"
        using g1 gi i_n less.prems(3) by (subst bubble_up_max.simps) (simp add: parent_def Let_def)
      have "\<not> node_ok (heap s) ?g i" using True lg by (simp add: node_ok_def)
      then have "up_ok (heap (swap i ?g s)) n ?g"
        using up_ok_step [OF less.prems(1) refl g1 _ less.prems(3)] by (simp add: swap_def)
      moreover have "length (heap (swap i ?g s)) = n + 1" using less.prems(3) by (simp add: swap_def)
      ultimately obtain s' where "bubble_up_max ?g (swap i ?g s) = Some (Inr (), s')"
        "size_h s' = size_h (swap i ?g s)" "length (heap s') = n + 1" "ordered (heap s') n"
        using less.IH [OF gi _ lg] by blast
      then show ?thesis using eq by (simp add: swap_def)
    qed
  qed
qed

text \<open>
  \<^verbatim>\<open>_bubble_up\<close> at the last node: either the new element is in order with its
  parent and the chain of its own level takes over, or it changes places with the
  parent and the chain of the parent's level takes over from there.
\<close>

lemma up_ok_start:
  assumes old: "ordered_below h n"
    and n: "1 \<le> n"
    and par: "n = 1 \<or> node_ok h (n div 2) n"
  shows "up_ok h n n"
proof -
  have c2: "node_ok h a n" if an: "is_descendant a n" and lv: "on_min_level a \<noteq> on_min_level n" for a
  proof -
    have n2: "2 \<le> n" using is_descendant_less [OF an] by auto
    with par have pn: "node_ok h (n div 2) n" by simp
    show ?thesis
    proof (cases "a = n div 2")
      case True
      with pn show ?thesis by simp
    next
      case False
      with an have ap: "is_descendant a (n div 2)" using is_descendant_cases by blast
      have "n div 2 < n" using n2 by auto
      with old ap have "node_ok h a (n div 2)" unfolding ordered_below_def by blast
      moreover have "on_min_level a = on_min_level (n div 2)"
        using lv min_level_parent [OF n2] by auto
      ultimately show ?thesis using pn node_ok_trans by blast
    qed
  qed
  show ?thesis
    unfolding up_ok_def using n old c2 unfolding ordered_below_def by auto
qed

lemma up_ok_parent_step:
  assumes old: "ordered_below h n"
    and n2: "2 \<le> n"
    and p: "p = n div 2"
    and viol: "\<not> node_ok h p n"
    and len: "length h = n + 1"
  shows "up_ok (h[n := h ! p, p := h ! n]) n p"
proof -
  define h' where "h' = h[n := h ! p, p := h ! n]"
  have pn: "1 \<le> p" "p < n" using n2 p by auto
  have Dpn: "is_descendant p n" unfolding p using n2 by (rule is_descendant_parent)
  have lp: "on_min_level p = (\<not> on_min_level n)" unfolding p using n2 by (rule min_level_parent)
  have old': "\<And>a d. is_descendant a d \<Longrightarrow> d < n \<Longrightarrow> node_ok h a d"
    using old unfolding ordered_below_def by blast
  have at_n: "h' ! n = h ! p" unfolding h'_def using pn len by simp
  have at_p: "h' ! p = h ! n" unfolding h'_def using pn len by simp
  have other: "\<And>k. k \<noteq> n \<Longrightarrow> k \<noteq> p \<Longrightarrow> h' ! k = h ! k" unfolding h'_def by simp
  have c1: "node_ok h' a d" if ad: "is_descendant a d" and dn: "d \<le> n" and dp: "d \<noteq> p" for a d
  proof (cases "d = n")
    case True
    with ad consider "a = p" | "is_descendant a p"
      using is_descendant_cases [of a n] p by blast
    then show ?thesis
    proof cases
      case 1
      then show ?thesis using viol True at_n at_p
        by (auto simp: node_ok_def split: if_splits)
    next
      case 2
      then have "a < p" using is_descendant_less by blast
      moreover have "node_ok h a p" using old' [OF 2] pn by simp
      ultimately show ?thesis using True pn at_n other [of a]
        by (auto simp: node_ok_def split: if_splits)
    qed
  next
    case False
    with dn have dlt: "d < n" by simp
    have d_other: "h' ! d = h ! d" using other False dp by simp
    have an: "a \<noteq> n" using is_descendant_less [OF ad] dlt by auto
    show ?thesis
    proof (cases "a = p")
      case True
      then have "node_ok h p d" using old' ad dlt by simp
      then show ?thesis using True viol at_p d_other
        by (auto simp: node_ok_def split: if_splits)
    next
      case False
      then have "h' ! a = h ! a" using other an by simp
      moreover have "node_ok h a d" using old' ad dlt by simp
      ultimately show ?thesis using d_other by (simp add: node_ok_def)
    qed
  qed
  have c2: "node_ok h' a p" if ap: "is_descendant a p" and lv: "on_min_level a \<noteq> on_min_level p" for a
  proof -
    have "a < p" using ap is_descendant_less by blast
    then have "h' ! a = h ! a" using other pn by simp
    moreover have "node_ok h a p" using old' [OF ap] pn by simp
    ultimately show ?thesis using viol lv lp at_p
      by (auto simp: node_ok_def split: if_splits)
  qed
  show ?thesis
    unfolding up_ok_def h'_def [symmetric]
    using pn c1 c2 by auto
qed

lemma ordered_one: "ordered h 1"
  unfolding ordered_def using is_descendant_less by fastforce

lemma bubble_up_correct:
  assumes old: "ordered_below (heap s) n"
    and n: "1 \<le> n"
    and len: "length (heap s) = n + 1"
    and small: "n < 2 ^ 49 - 1"
  shows "\<exists>s'. bubble_up n s = Some (Inr (), s') \<and> size_h s' = size_h s \<and>
           length (heap s') = n + 1 \<and> ordered (heap s') n"
proof (cases "n = 1")
  case True
  then show ?thesis using len ordered_one by (simp add: bubble_up_def)
next
  case False
  with n have n2: "2 \<le> n" by simp
  let ?p = "n div 2"
  have pn: "?p < n" "n < length (heap s)" "?p < length (heap s)" using n2 len by auto
  have lp: "on_min_level ?p = (\<not> on_min_level n)" using n2 by (rule min_level_parent)
  have test: "is_min_level n = on_min_level n" using small by (rule is_min_level_exact)
  have len': "length (heap (swap n ?p s)) = n + 1" using len by (simp add: swap_def)
  have sz': "size_h (swap n ?p s) = size_h s" by (simp add: swap_def)
  have swapped: "\<not> node_ok (heap s) ?p n \<Longrightarrow> up_ok (heap (swap n ?p s)) n ?p"
    using up_ok_parent_step [OF old n2 refl _ len] by (simp add: swap_def)
  have kept: "node_ok (heap s) ?p n \<Longrightarrow> up_ok (heap s) n n"
    using up_ok_start [OF old n] by simp
  show ?thesis
  proof (cases "on_min_level n")
    case min: True
    show ?thesis
    proof (cases "heap s ! n > heap s ! ?p")
      case True
      then have "bubble_up n s = bubble_up_max ?p (swap n ?p s)"
        using False min pn test by (simp add: bubble_up_def parent_def Let_def)
      moreover have "\<not> node_ok (heap s) ?p n" using True lp min by (simp add: node_ok_def)
      ultimately show ?thesis
        using bubble_up_max_correct [OF swapped _ len'] lp min sz' by simp
    next
      case le: False
      then have "bubble_up n s = bubble_up_min n s"
        using False min pn test by (simp add: bubble_up_def parent_def Let_def)
      moreover have "node_ok (heap s) ?p n" using le lp min by (simp add: node_ok_def)
      ultimately show ?thesis
        using bubble_up_min_correct [OF kept min len] by simp
    qed
  next
    case max: False
    show ?thesis
    proof (cases "heap s ! n < heap s ! ?p")
      case True
      then have "bubble_up n s = bubble_up_min ?p (swap n ?p s)"
        using False max pn test by (simp add: bubble_up_def parent_def Let_def)
      moreover have "\<not> node_ok (heap s) ?p n" using True lp max by (simp add: node_ok_def)
      ultimately show ?thesis
        using bubble_up_min_correct [OF swapped _ len'] lp max sz' by simp
    next
      case ge: False
      then have "bubble_up n s = bubble_up_max n s"
        using False max pn test by (simp add: bubble_up_def parent_def Let_def)
      moreover have "node_ok (heap s) ?p n" using ge lp max by (simp add: node_ok_def)
      ultimately show ?thesis
        using bubble_up_max_correct [OF kept max len] by simp
    qed
  qed
qed

lemma insert_h_correct:
  assumes sh: "shape s" and ord: "heap_order s" and small: "size_h s + 1 < 2 ^ 49 - 1"
  shows "\<exists>s'. insert_h item s = Some (Inr (), s') \<and> shape s' \<and> heap_order s' \<and>
           size_h s' = size_h s + 1"
proof -
  let ?n = "size_h s + 1"
  let ?s2 = "s\<lparr>heap := heap s @ [item], size_h := size_h s + 1\<rparr>"
  have len: "length (heap ?s2) = ?n + 1" using sh by (simp add: shape_def)
  have "ordered_below (heap ?s2) ?n"
    unfolding ordered_below_def
  proof (intro allI impI)
    fix a d
    assume ad: "is_descendant a d" and d: "d < ?n"
    then have "node_ok (heap s) a d" using ord unfolding heap_order_iff ordered_def by simp
    moreover have "a < d" using ad is_descendant_less by blast
    ultimately show "node_ok (heap ?s2) a d"
      using d sh by (simp add: node_ok_def shape_def nth_append)
  qed
  from bubble_up_correct [OF this _ len small]
  obtain s' where "bubble_up ?n ?s2 = Some (Inr (), s')" "size_h s' = ?n"
    "length (heap s') = ?n + 1" "ordered (heap s') ?n" by auto
  then show ?thesis
    by (simp add: insert_h_def Let_def shape_def heap_order_iff)
qed

lemma init_shape_order: "shape init \<and> heap_order init"
  by (simp add: init_def shape_def heap_order_def)

lemma run_inserts_correct:
  assumes "shape s" "heap_order s" "size_h s + length xs < 2 ^ 49 - 1"
  shows "\<exists>s'. run (map Insert xs) s = Some (replicate (length xs) (Inr No_value), s') \<and>
           shape s' \<and> heap_order s' \<and> size_h s' = size_h s + length xs"
  using assms
proof (induction xs arbitrary: s)
  case Nil
  then show ?case by simp
next
  case (Cons x xs)
  have "size_h s + 1 < 2 ^ 49 - 1" using Cons.prems(3) by simp
  from insert_h_correct [OF Cons.prems(1,2) this, of x]
  obtain s1 where s1: "insert_h x s = Some (Inr (), s1)" "shape s1" "heap_order s1"
    "size_h s1 = size_h s + 1" by blast
  have "size_h s1 + length xs < 2 ^ 49 - 1" using Cons.prems(3) s1(4) by simp
  from Cons.IH [OF s1(2,3) this]
  obtain s' where "run (map Insert xs) s1 = Some (replicate (length xs) (Inr No_value), s')"
    "shape s'" "heap_order s'" "size_h s' = size_h s1 + length xs" by blast
  with s1 show ?case by simp
qed

subsection \<open>What a call leaves alone\<close>

text \<open>
  The repair loops swap elements and touch nothing else: the counter and the length
  of the list are as before, whatever the outcome. Started at an index the list has,
  they do not raise.
\<close>

lemma bubble_up_min_frame:
  "bubble_up_min i s = Some (r, s') \<Longrightarrow>
   size_h s' = size_h s \<and> length (heap s') = length (heap s)"
proof (induction i arbitrary: s rule: less_induct)
  case (less i)
  let ?g = "i div 2 div 2"
  show ?case
  proof (cases "1 \<le> ?g \<and> i < length (heap s) \<and> ?g < length (heap s) \<and> heap s ! i < heap s ! ?g")
    case True
    then have "bubble_up_min i s = bubble_up_min ?g (swap i ?g s)"
      by (subst bubble_up_min.simps) (simp add: parent_def Let_def)
    with less.prems have "bubble_up_min ?g (swap i ?g s) = Some (r, s')" by simp
    moreover have "?g < i" using True by auto
    ultimately show ?thesis using less.IH [of ?g "swap i ?g s"] by (simp add: swap_def)
  next
    case False
    with less.prems have "s' = s"
      by (subst (asm) bubble_up_min.simps) (auto simp: parent_def Let_def split: if_splits)
    then show ?thesis by simp
  qed
qed

lemma bubble_up_max_frame:
  "bubble_up_max i s = Some (r, s') \<Longrightarrow>
   size_h s' = size_h s \<and> length (heap s') = length (heap s)"
proof (induction i arbitrary: s rule: less_induct)
  case (less i)
  let ?g = "i div 2 div 2"
  show ?case
  proof (cases "1 \<le> ?g \<and> i < length (heap s) \<and> ?g < length (heap s) \<and> heap s ! i > heap s ! ?g")
    case True
    then have "bubble_up_max i s = bubble_up_max ?g (swap i ?g s)"
      by (subst bubble_up_max.simps) (simp add: parent_def Let_def)
    with less.prems have "bubble_up_max ?g (swap i ?g s) = Some (r, s')" by simp
    moreover have "?g < i" using True by auto
    ultimately show ?thesis using less.IH [of ?g "swap i ?g s"] by (simp add: swap_def)
  next
    case False
    with less.prems have "s' = s"
      by (subst (asm) bubble_up_max.simps) (auto simp: parent_def Let_def split: if_splits)
    then show ?thesis by simp
  qed
qed

lemma bubble_up_frame:
  "bubble_up i s = Some (r, s') \<Longrightarrow>
   size_h s' = size_h s \<and> length (heap s') = length (heap s)"
  unfolding bubble_up_def Let_def
  by (auto split: if_splits dest: bubble_up_min_frame bubble_up_max_frame simp: swap_def)

lemma insert_h_frame:
  "insert_h item s = Some (r, s') \<Longrightarrow>
   size_h s' = size_h s + 1 \<and> length (heap s') = length (heap s) + 1"
  unfolding insert_h_def Let_def by (auto dest: bubble_up_frame)

lemma bubble_up_min_in_range:
  "i < length (heap s) \<Longrightarrow> \<exists>s'. bubble_up_min i s = Some (Inr (), s')"
proof (induction i arbitrary: s rule: less_induct)
  case (less i)
  let ?g = "i div 2 div 2"
  show ?case
  proof (cases "1 \<le> ?g \<and> heap s ! i < heap s ! ?g")
    case True
    then have gi: "?g < i" by auto
    then have "bubble_up_min i s = bubble_up_min ?g (swap i ?g s)"
      using True less.prems by (subst bubble_up_min.simps) (simp add: parent_def Let_def)
    moreover have "?g < length (heap (swap i ?g s))" using gi less.prems by (simp add: swap_def)
    ultimately show ?thesis using less.IH [OF gi] by simp
  next
    case False
    then show ?thesis using less.prems
      by (subst bubble_up_min.simps) (auto simp: parent_def Let_def)
  qed
qed

lemma bubble_up_max_in_range:
  "i < length (heap s) \<Longrightarrow> \<exists>s'. bubble_up_max i s = Some (Inr (), s')"
proof (induction i arbitrary: s rule: less_induct)
  case (less i)
  let ?g = "i div 2 div 2"
  show ?case
  proof (cases "1 \<le> ?g \<and> heap s ! i > heap s ! ?g")
    case True
    then have gi: "?g < i" by auto
    then have "bubble_up_max i s = bubble_up_max ?g (swap i ?g s)"
      using True less.prems by (subst bubble_up_max.simps) (simp add: parent_def Let_def)
    moreover have "?g < length (heap (swap i ?g s))" using gi less.prems by (simp add: swap_def)
    ultimately show ?thesis using less.IH [OF gi] by simp
  next
    case False
    then show ?thesis using less.prems
      by (subst bubble_up_max.simps) (auto simp: parent_def Let_def)
  qed
qed

lemma bubble_up_in_range:
  assumes "i < length (heap s)"
  shows "\<exists>s'. bubble_up i s = Some (Inr (), s')"
proof -
  have p: "i div 2 < length (heap s)" using assms by auto
  then have "i div 2 < length (heap (swap i (i div 2) s))" by (simp add: swap_def)
  then show ?thesis
    using assms p bubble_up_min_in_range bubble_up_max_in_range
    by (simp add: bubble_up_def Let_def parent_def)
qed

lemma insert_h_on_shape:
  assumes "shape s"
  shows "\<exists>s'. insert_h item s = Some (Inr (), s') \<and> shape s'"
proof -
  let ?s2 = "s\<lparr>heap := heap s @ [item], size_h := size_h s + 1\<rparr>"
  have "size_h ?s2 < length (heap ?s2)" using assms by (simp add: shape_def)
  from bubble_up_in_range [OF this] obtain s' where s': "bubble_up (size_h s + 1) ?s2 = Some (Inr (), s')"
    by auto
  then have "insert_h item s = Some (Inr (), s')" by (simp add: insert_h_def Let_def)
  moreover from this have "shape s'" using insert_h_frame assms by (fastforce simp: shape_def)
  ultimately show ?thesis by simp
qed



lemma delete_min_three_entries:
  assumes "1 \<le> size_h s" "3 \<le> length (heap s)"
  shows "delete_min s =
     (Inr (heap s ! 1), \<lparr>heap = (butlast (heap s))[1 := last (heap s)], size_h = size_h s - 1\<rparr>)"
  using assms by (simp add: delete_min_def Let_def trickle_down_def)

lemma delete_min_two_or_more:
  assumes "shape s" "2 \<le> size_h s"
  shows "delete_min s =
     (Inr (heap s ! 1), \<lparr>heap = (butlast (heap s))[1 := last (heap s)], size_h = size_h s - 1\<rparr>)"
  using assms by (intro delete_min_three_entries) (simp_all add: shape_def)

lemma exec_keeps_shape:
  assumes "shape s" "exec c s = Some (Inr r, s')"
  shows "shape s'"
proof (cases c)
  case (Insert item)
  with assms(2) obtain r0 where "insert_h item s = Some (r0, s')"
    by (auto split: option.splits prod.splits)
  then show ?thesis using insert_h_frame assms(1) by (fastforce simp: shape_def)
next
  case Get_min
  with assms show ?thesis by (auto simp: returned_def get_min_def split: if_splits)
next
  case Get_max
  with assms show ?thesis by (auto simp: returned_def get_max_def split: if_splits)
next
  case Delete_min
  with assms show ?thesis
    by (auto simp: returned_def delete_min_def Let_def trickle_down_def shape_def split: if_splits)
qed

subsection \<open>The example of the source file\<close>

text \<open>
  C4. The module's own example: inserting 10, 8, 30, 2, 50, 15, 60 in that order into
  a new heap, then asking for the minimum and the maximum. Every call returns, the
  minimum is 2 and the maximum is 60.
\<close>

theorem example_insertions_min_max:
  "run (map Insert [10, 8, 30, 2, 50, 15, 60] @ [Get_min, Get_max]) init =
     Some (replicate 7 (Inr No_value) @ [Inr (Element 2), Inr (Element 60)],
           \<lparr>heap = [0, 2, 50, 60, 8, 10, 15, 30], size_h = 7\<rparr>)"
  by code_simp

subsection \<open>The observers\<close>

text \<open>
  C9. \<^verbatim>\<open>get_min\<close> and \<^verbatim>\<open>get_max\<close> leave the list and the counter as they found
  them, whether they return a value or raise. The size query of the specification is
  the attribute \<^verbatim>\<open>self.size\<close> itself, read by the selector \<^const>\<open>size_h\<close>, which has
  no state to change.
\<close>

theorem observers_leave_state:
  "snd (get_min s) = s \<and> snd (get_max s) = s"
  by (simp add: get_min_def get_max_def)

text \<open>
  C5, as the source has it: on a heap of one element \<^verbatim>\<open>get_max\<close> returns the root,
  on a heap of two elements the element at index 2, and from three elements on the
  larger of the elements at indices 2 and 3.
\<close>

theorem get_max_by_size:
  "shape s \<Longrightarrow> 1 \<le> size_h s \<Longrightarrow>
   get_max s =
     (Inr (if size_h s = 1 then heap s ! 1
           else if size_h s = 2 then heap s ! 2
           else max (heap s ! 2) (heap s ! 3)), s)"
  by (simp add: get_max_def shape_def)

theorem get_max_by_size_witness:
  "shape \<lparr>heap = [0, 2, 50, 60, 8, 10, 15, 30], size_h = 7\<rparr> \<and>
   1 \<le> size_h \<lparr>heap = [0, 2, 50, 60, 8, 10, 15, 30], size_h = 7\<rparr> \<and>
   get_max \<lparr>heap = [0, 2, 50, 60, 8, 10, 15, 30], size_h = 7\<rparr> =
     (Inr 60, \<lparr>heap = [0, 2, 50, 60, 8, 10, 15, 30], size_h = 7\<rparr>)"
  using get_max_by_size [of "\<lparr>heap = [0, 2, 50, 60, 8, 10, 15, 30], size_h = 7\<rparr>"]
  by (simp add: shape_def)

text \<open>
  C5 as the claim words it ("the root itself when size \<open>\<le>\<close> 2") fails on a heap of two
  elements: after inserting 1 and 2 the root holds 1, and \<^verbatim>\<open>get_max\<close> returns the
  element at index 2, which is 2.
\<close>

theorem get_max_size_two_not_root:
  "run [Insert 1, Insert 2] init =
     Some ([Inr No_value, Inr No_value], \<lparr>heap = [0, 1, 2], size_h = 2\<rparr>) \<and>
   size_h \<lparr>heap = [0, 1, 2], size_h = 2\<rparr> \<le> 2 \<and>
   heap \<lparr>heap = [0, 1, 2], size_h = 2\<rparr> ! 1 = 1 \<and>
   fst (get_max \<lparr>heap = [0, 1, 2], size_h = 2\<rparr>) = Inr 2"
  by code_simp

subsection \<open>Deleting the only element\<close>

text \<open>
  C2. On a heap that holds one element, \<^verbatim>\<open>delete_min\<close> pops that element off the list
  and then raises at the write to index 1: the call fails and the list is one shorter
  than before.
\<close>

theorem delete_min_single_element_mutates_then_raises:
  "run [Insert 5] init = Some ([Inr No_value], \<lparr>heap = [0, 5], size_h = 1\<rparr>) \<and>
   delete_min \<lparr>heap = [0, 5], size_h = 1\<rparr> =
     (Inl List_index_out_of_range, \<lparr>heap = [0], size_h = 1\<rparr>)"
  by code_simp

text \<open>
  C3. The same call shows that \<^verbatim>\<open>delete_min\<close> also raises on a heap that is not
  empty, and with the list's error instead of "Heap is empty.".
\<close>

theorem delete_min_raises_on_nonempty_heap:
  "size_h \<lparr>heap = [0, 5], size_h = 1\<rparr> \<noteq> 0 \<and>
   shape \<lparr>heap = [0, 5], size_h = 1\<rparr> \<and>
   fst (delete_min \<lparr>heap = [0, 5], size_h = 1\<rparr>) = Inl List_index_out_of_range"
  by code_simp

text \<open>
  C6. A caller that catches the error of that call and goes on finds the object one
  element short for good: the next \<^verbatim>\<open>insert\<close> raises as well, and the
  \<^verbatim>\<open>get_min\<close> after it returns normally on a list that holds the sentinel and one
  element while the counter says two.
\<close>

theorem shape_lost_after_failed_delete_min:
  "run [Insert 5, Delete_min, Insert 7, Get_min] init =
     Some ([Inr No_value, Inl List_index_out_of_range, Inl List_index_out_of_range,
            Inr (Element 7)],
           \<lparr>heap = [0, 7], size_h = 2\<rparr>) \<and>
   \<not> shape \<lparr>heap = [0, 7], size_h = 2\<rparr>"
  by code_simp

subsection \<open>Deletion without repair\<close>

text \<open>
  C1. \<^verbatim>\<open>_trickle_down\<close> does nothing, so \<^verbatim>\<open>delete_min\<close> leaves the last element at
  the root unrepaired. After inserting 1, 2, 3 and deleting the minimum, the root
  (node 1, on a min-level) holds 3 and its child (node 2) holds 2.
\<close>

theorem delete_min_leaves_root_above_child:
  "run [Insert 1, Insert 2, Insert 3, Delete_min] init =
     Some ([Inr No_value, Inr No_value, Inr No_value, Inr (Element 1)],
           \<lparr>heap = [0, 3, 2], size_h = 2\<rparr>) \<and>
   is_min_level 1 \<and> on_min_level 1 \<and> is_descendant 1 2 \<and>
   heap \<lparr>heap = [0, 3, 2], size_h = 2\<rparr> ! 1 > heap \<lparr>heap = [0, 3, 2], size_h = 2\<rparr> ! 2"
  by code_simp

lemma heap_order_lost_after_delete_min:
  "\<not> heap_order \<lparr>heap = [0, 3, 2], size_h = 2\<rparr>"
  by code_simp

subsection \<open>Termination\<close>

text \<open>
  C8. Every call returns: the two grandparent chains for every starting index and
  every state of the object (each recursive call is at a quarter of the index), and
  with them every public method and every sequence of calls. A call that raises has
  returned too, with its error as outcome. (The recursion is at most one frame per
  two levels of the tree, far from Python's recursion limit for any list that fits
  in memory.)
\<close>

theorem every_call_returns:
  "(\<exists>r. bubble_up_min i s = Some r) \<and> (\<exists>r. bubble_up_max i s = Some r) \<and>
   (\<exists>r. exec c s = Some r) \<and> (\<exists>r. run cs s = Some r)"
  using bubble_up_min_returns bubble_up_max_returns exec_returns run_returns by blast

subsection \<open>Insertion and the rounded level\<close>

text \<open>
  As long as the heap holds fewer than \<open>2 ^ 49 - 1\<close> elements, \<^verbatim>\<open>_is_min_level\<close>
  tells the level of the new node correctly: whatever is inserted into a new heap, in
  whatever order, every \<^verbatim>\<open>insert\<close> returns normally and the heap it leaves is in
  order.
\<close>

lemma inserts_keep_heap_order_below:
  "length xs < 2 ^ 49 - 1 \<Longrightarrow>
   \<exists>s. run (map Insert xs) init = Some (replicate (length xs) (Inr No_value), s) \<and>
       heap_order s"
  using run_inserts_correct [of init xs] init_shape_order by (auto simp: init_def)

text \<open>
  The insertion that makes node \<open>2 ^ 49 - 1\<close> is different. That node is on level 48,
  a min-level, and \<^verbatim>\<open>_is_min_level\<close> takes it for a node of level 49. Into a heap of
  \<open>2 ^ 49 - 2\<close> zeros, which no insertion has reordered, a 1 is inserted: it is
  compared as a max-level node, is larger than its grandparent and climbs the chain of
  grandparents, which are the min-level nodes \<open>2 ^ 47 - 1\<close>, \<open>2 ^ 45 - 1\<close>, ..., 1,
  up to the root.
\<close>

lemma run_append:
  "run cs s = Some (rs, s') \<Longrightarrow> run ds s' = Some (rs', s'') \<Longrightarrow>
   run (cs @ ds) s = Some (rs @ rs', s'')"
proof (induction cs arbitrary: s rs)
  case Nil
  then show ?case by simp
next
  case (Cons c cs)
  from Cons.prems(1) obtain r s1 rs1 where e: "exec c s = Some (r, s1)"
    and rest: "run cs s1 = Some (rs1, s')" and rs: "rs = r # rs1"
    by (auto split: option.splits prod.splits)
  from Cons.IH [OF rest Cons.prems(2)] e rs show ?case by simp
qed

lemma bubble_up_min_zeros:
  "i < m \<Longrightarrow> bubble_up_min i \<lparr>heap = replicate m 0, size_h = z\<rparr> =
     Some (Inr (), \<lparr>heap = replicate m 0, size_h = z\<rparr>)"
  by (subst bubble_up_min.simps) (simp add: Let_def parent_def)

lemma bubble_up_max_zeros:
  "i < m \<Longrightarrow> bubble_up_max i \<lparr>heap = replicate m 0, size_h = z\<rparr> =
     Some (Inr (), \<lparr>heap = replicate m 0, size_h = z\<rparr>)"
  by (subst bubble_up_max.simps) (simp add: Let_def parent_def)

lemma bubble_up_zeros:
  assumes "i < m"
  shows "bubble_up i \<lparr>heap = replicate m 0, size_h = z\<rparr> =
     Some (Inr (), \<lparr>heap = replicate m 0, size_h = z\<rparr>)"
proof -
  have "i div 2 < m" using assms by simp
  with assms show ?thesis
    by (simp add: bubble_up_def Let_def parent_def bubble_up_min_zeros bubble_up_max_zeros)
qed

lemma insert_zero_on_zeros:
  "insert_h 0 \<lparr>heap = replicate (Suc j) 0, size_h = j\<rparr> =
     Some (Inr (), \<lparr>heap = replicate (Suc (Suc j)) 0, size_h = Suc j\<rparr>)"
proof -
  have "replicate (Suc j) (0 :: int) @ [0] = replicate (Suc (Suc j)) 0"
    by (simp add: replicate_append_same)
  then show ?thesis
    using bubble_up_zeros [of "Suc j" "Suc (Suc j)" "Suc j"] by (simp add: insert_h_def Let_def)
qed

lemma run_zeros:
  "run (map Insert (replicate k 0)) \<lparr>heap = replicate (Suc j) 0, size_h = j\<rparr> =
     Some (replicate k (Inr No_value), \<lparr>heap = replicate (Suc (j + k)) 0, size_h = j + k\<rparr>)"
proof (induction k arbitrary: j)
  case 0
  show ?case by simp
next
  case (Suc k)
  show ?case using insert_zero_on_zeros [of j] Suc [of "Suc j"] by simp
qed

lemma replicate_update_same: "(replicate m x)[i := x] = replicate m x"
  by (cases "i < m") (simp_all add: list_update_same_conv list_update_beyond)

lemma swap_one_on_zeros:
  assumes "g < i" "i < m"
  shows "swap i g \<lparr>heap = (replicate m 0)[i := 1], size_h = z\<rparr> =
     \<lparr>heap = (replicate m 0)[g := 1], size_h = z\<rparr>"
proof -
  have "(replicate m (0 :: int))[i := 1] ! g = 0" "(replicate m (0 :: int))[i := 1] ! i = 1"
    using assms by simp_all
  then show ?thesis by (simp add: swap_def replicate_update_same)
qed

lemma quarter_of_odd_power:
  "(2 ^ (2 * Suc t + 1) - 1) div 2 div 2 = (2 ^ (2 * t + 1) - 1 :: nat)"
proof -
  define a :: nat where "a = 2 ^ (2 * t + 1)"
  have a1: "1 \<le> a" unfolding a_def by simp
  have "(2 :: nat) ^ (2 * Suc t + 1) = 4 * a" unfolding a_def by simp
  moreover have "(4 * a - 1) div 2 div 2 = a - 1" using a1 by simp
  ultimately show ?thesis unfolding a_def by simp
qed

lemma bubble_up_max_one_step:
  assumes g: "g = i div 2 div 2" "1 \<le> g" and im: "i < m"
  shows "bubble_up_max i \<lparr>heap = (replicate m 0)[i := 1], size_h = z\<rparr> =
     bubble_up_max g \<lparr>heap = (replicate m 0)[g := 1], size_h = z\<rparr>"
proof -
  have gi: "g < i" using g by auto
  then have gm: "g < m" using im by simp
  have "bubble_up_max i \<lparr>heap = (replicate m 0)[i := 1], size_h = z\<rparr> =
      bubble_up_max g (swap i g \<lparr>heap = (replicate m 0)[i := 1], size_h = z\<rparr>)"
    using g gi gm im by (subst bubble_up_max.simps) (simp add: Let_def parent_def)
  then show ?thesis using swap_one_on_zeros [OF gi im] by simp
qed

lemma bubble_up_max_one_climbs:
  "2 ^ (2 * t + 1) - 1 < m \<Longrightarrow>
   bubble_up_max (2 ^ (2 * t + 1) - 1)
     \<lparr>heap = (replicate m 0)[2 ^ (2 * t + 1) - 1 := 1], size_h = z\<rparr> =
   Some (Inr (), \<lparr>heap = (replicate m 0)[1 := 1], size_h = z\<rparr>)"
proof (induction t)
  case 0
  show ?case by (subst bubble_up_max.simps) (simp add: Let_def parent_def)
next
  case (Suc t)
  let ?i = "2 ^ (2 * Suc t + 1) - 1 :: nat"
  let ?g = "2 ^ (2 * t + 1) - 1 :: nat"
  have g: "?g = ?i div 2 div 2" by (rule quarter_of_odd_power [symmetric])
  have "(2 :: nat) ^ 1 \<le> 2 ^ (2 * t + 1)" by (intro power_increasing) auto
  then have "2 \<le> (2 :: nat) ^ (2 * t + 1)" by (simp only: power_one_right)
  then have g1: "1 \<le> ?g" by linarith
  have "?i div 2 div 2 \<le> ?i" by (meson div_le_dividend order_trans)
  then have "?g \<le> ?i" by (simp only: g [symmetric])
  then have gm: "?g < m" using Suc.prems by simp
  have "bubble_up_max ?i \<lparr>heap = (replicate m 0)[?i := 1], size_h = z\<rparr> =
      bubble_up_max ?g \<lparr>heap = (replicate m 0)[?g := 1], size_h = z\<rparr>"
    using g g1 Suc.prems by (rule bubble_up_max_one_step)
  also have "\<dots> = Some (Inr (), \<lparr>heap = (replicate m 0)[1 := 1], size_h = z\<rparr>)"
    using gm by (rule Suc.IH)
  finally show ?case .
qed

lemma insert_one_on_zeros:
  assumes n: "n = 2 ^ (2 * t + 1) - 1" and t: "1 \<le> t" and lvl: "\<not> is_min_level n"
  shows "insert_h 1 \<lparr>heap = replicate n 0, size_h = n - 1\<rparr> =
     Some (Inr (), \<lparr>heap = (replicate (Suc n) 0)[1 := 1], size_h = n\<rparr>)"
proof -
  have "(2 :: nat) ^ 3 \<le> 2 ^ (2 * t + 1)" using t by (intro power_increasing) auto
  then have n7: "7 \<le> n" unfolding n by simp
  have "replicate (Suc n) (0 :: int) = replicate n 0 @ [0]"
    by (simp add: replicate_append_same)
  moreover have "(replicate n (0 :: int) @ [0])[n := 1] = replicate n 0 @ [1]"
    using list_update_length [of "replicate n (0 :: int)" 0 "[]" 1] by simp
  ultimately have app: "replicate n (0 :: int) @ [1] = (replicate (Suc n) 0)[n := 1]"
    by simp
  have pn: "n div 2 < n" using n7 by simp
  have pn': "n div 2 < Suc n" using pn by simp
  have cmp: "\<not> (replicate (Suc n) (0 :: int))[n := 1] ! n < (replicate (Suc n) 0)[n := 1] ! (n div 2)"
    using pn by (simp del: replicate.simps replicate_Suc)
  have "bubble_up n \<lparr>heap = (replicate (Suc n) 0)[n := 1], size_h = n\<rparr> =
     bubble_up_max n \<lparr>heap = (replicate (Suc n) 0)[n := 1], size_h = n\<rparr>"
    using n7 lvl cmp pn' by (simp add: bubble_up_def Let_def parent_def del: replicate.simps replicate_Suc)
  also have "\<dots> = Some (Inr (), \<lparr>heap = (replicate (Suc n) 0)[1 := 1], size_h = n\<rparr>)"
    unfolding n by (rule bubble_up_max_one_climbs) simp
  finally show ?thesis using n7 app by (simp add: insert_h_def Let_def del: replicate.simps replicate_Suc)
qed

lemma zeros_then_one:
  assumes n: "n = 2 ^ (2 * t + 1) - 1" and t: "1 \<le> t" and lvl: "\<not> is_min_level n"
  shows "run (map Insert (replicate (n - 1) 0 @ [1])) init =
     Some (replicate n (Inr No_value), \<lparr>heap = (replicate (Suc n) 0)[1 := 1], size_h = n\<rparr>)"
proof -
  have "(2 :: nat) ^ 3 \<le> 2 ^ (2 * t + 1)" using t by (intro power_increasing) auto
  then have n7: "7 \<le> n" unfolding n by simp
  have a: "run (map Insert (replicate (n - 1) 0)) init =
      Some (replicate (n - 1) (Inr No_value), \<lparr>heap = replicate n 0, size_h = n - 1\<rparr>)"
    using run_zeros [of "n - 1" 0] n7 by (simp add: init_def)
  have b: "run [Insert 1] \<lparr>heap = replicate n 0, size_h = n - 1\<rparr> =
      Some ([Inr No_value], \<lparr>heap = (replicate (Suc n) 0)[1 := 1], size_h = n\<rparr>)"
    using insert_one_on_zeros [OF n t lvl] by simp
  obtain k where k: "n = Suc k" using n7 by (cases n) auto
  have "replicate (n - 1) (Inr No_value) @ [Inr No_value] =
      (replicate n (Inr No_value) :: (error + ret) list)"
    unfolding k by (simp add: replicate_append_same)
  then show ?thesis using run_append [OF a b] by simp
qed

text \<open>
  C10. After \<open>2 ^ 49 - 2\<close> insertions of 0 and one insertion of 1 into a new heap,
  every call has returned normally, the root (node 1, on a min-level) holds 1 and its
  child (node 2) holds 0.
\<close>

theorem insert_after_rounding_breaks_heap_order:
  "run (map Insert (replicate (2 ^ 49 - 2) 0 @ [1])) init =
     Some (replicate (2 ^ 49 - 1) (Inr No_value),
           \<lparr>heap = (replicate (2 ^ 49) 0)[1 := 1], size_h = 2 ^ 49 - 1\<rparr>) \<and>
   on_min_level 1 \<and> is_descendant 1 2 \<and>
   2 \<le> size_h \<lparr>heap = (replicate (2 ^ 49) 0)[1 := 1], size_h = 2 ^ 49 - 1\<rparr> \<and>
   heap \<lparr>heap = (replicate (2 ^ 49) 0)[1 := 1], size_h = 2 ^ 49 - 1\<rparr> ! 1 >
   heap \<lparr>heap = (replicate (2 ^ 49) 0)[1 := 1], size_h = 2 ^ 49 - 1\<rparr> ! 2"
proof -
  have n: "(2 ^ 49 - 1 :: nat) = 2 ^ (2 * 24 + 1) - 1" by simp
  have "run (map Insert (replicate ((2 ^ 49 - 1) - 1) 0 @ [1])) init =
     Some (replicate (2 ^ 49 - 1) (Inr No_value),
           \<lparr>heap = (replicate (Suc (2 ^ 49 - 1)) 0)[1 := 1], size_h = 2 ^ 49 - 1\<rparr>)"
    using n _ is_min_level_2_49 by (rule zeros_then_one) simp
  moreover have "(2 ^ 49 - 1 :: nat) - 1 = 2 ^ 49 - 2" "Suc (2 ^ 49 - 1) = 2 ^ 49" by simp_all
  moreover have "on_min_level 1" by code_simp
  moreover have "is_descendant 1 2" by code_simp
  ultimately show ?thesis by simp
qed

lemma heap_order_lost_after_rounding:
  "\<not> heap_order \<lparr>heap = (replicate (2 ^ 49) 0)[1 := 1], size_h = 2 ^ 49 - 1\<rparr>"
proof
  assume "heap_order \<lparr>heap = (replicate (2 ^ 49) 0)[1 := 1], size_h = 2 ^ 49 - 1\<rparr>"
  then have "ordered ((replicate (2 ^ 49) 0)[1 := 1]) (2 ^ 49 - 1)"
    by (simp add: heap_order_iff)
  moreover have "is_descendant 1 2" by code_simp
  ultimately have "node_ok ((replicate (2 ^ 49) 0)[1 := 1]) 1 2"
    unfolding ordered_def by simp
  moreover have "on_min_level 1" by code_simp
  ultimately show False by (simp add: node_ok_def)
qed

subsection \<open>Removal\<close>




subsection \<open>Heaps of the right shape\<close>

text \<open>
  The remaining facts are about states in which the list holds the sentinel and exactly
  \<open>size\<close> elements. From a new heap, every sequence of calls that all return normally
  ends in such a state.
\<close>

lemma run_keeps_shape:
  "shape s \<Longrightarrow> run cs s = Some (rs, s') \<Longrightarrow> \<forall>r \<in> set rs. \<exists>v. r = Inr v \<Longrightarrow> shape s'"
proof (induction cs arbitrary: s rs)
  case Nil
  then show ?case by simp
next
  case (Cons c cs)
  from Cons.prems(2) obtain r s1 rs1 where e: "exec c s = Some (r, s1)"
    and rest: "run cs s1 = Some (rs1, s')" and rs: "rs = r # rs1"
    by (auto split: option.splits prod.splits)
  from rs Cons.prems(3) obtain v where "r = Inr v" by auto
  with e Cons.prems(1) have "shape s1" using exec_keeps_shape by blast
  moreover have "\<forall>r \<in> set rs1. \<exists>v. r = Inr v" using rs Cons.prems(3) by simp
  ultimately show ?case using Cons.IH rest by blast
qed

theorem completed_calls_keep_shape:
  "run cs init = Some (rs, s) \<Longrightarrow> \<forall>r \<in> set rs. \<exists>v. r = Inr v \<Longrightarrow> shape s"
  using run_keeps_shape [of init cs rs s] init_shape_order by simp

theorem completed_calls_keep_shape_witness:
  "run [Insert 1, Insert 2, Insert 3, Delete_min, Get_max] init =
     Some ([Inr No_value, Inr No_value, Inr No_value, Inr (Element 1), Inr (Element 2)],
           \<lparr>heap = [0, 3, 2], size_h = 2\<rparr>) \<and>
   shape \<lparr>heap = [0, 3, 2], size_h = 2\<rparr>"
proof -
  have r: "run [Insert 1, Insert 2, Insert 3, Delete_min, Get_max] init =
     Some ([Inr No_value, Inr No_value, Inr No_value, Inr (Element 1), Inr (Element 2)],
           \<lparr>heap = [0, 3, 2], size_h = 2\<rparr>)"
    by code_simp
  from completed_calls_keep_shape [OF r] show ?thesis using r by simp
qed

text \<open>
  On such a state \<^verbatim>\<open>insert\<close> never raises, whatever the item and whatever the order
  of the elements already there, and it leaves such a state with one element more.
\<close>

theorem insert_never_raises_on_shaped_heap:
  "shape s \<Longrightarrow>
   \<exists>s'. insert_h item s = Some (Inr (), s') \<and> shape s' \<and> size_h s' = size_h s + 1"
  using insert_h_on_shape [of s item] insert_h_frame by blast

theorem insert_never_raises_on_shaped_heap_witness:
  "shape \<lparr>heap = [0, 8, 10], size_h = 2\<rparr> \<and>
   insert_h 30 \<lparr>heap = [0, 8, 10], size_h = 2\<rparr> =
     Some (Inr (), \<lparr>heap = [0, 8, 10, 30], size_h = 3\<rparr>)"
proof -
  have sh: "shape \<lparr>heap = [0, 8, 10], size_h = 2\<rparr>" by (simp add: shape_def)
  have ev: "insert_h 30 \<lparr>heap = [0, 8, 10], size_h = 2\<rparr> =
     Some (Inr (), \<lparr>heap = [0, 8, 10, 30], size_h = 3\<rparr>)" by code_simp
  from insert_never_raises_on_shaped_heap [OF sh, of 30] sh ev show ?thesis by simp
qed

text \<open>
  On such a state \<^verbatim>\<open>get_min\<close> and \<^verbatim>\<open>get_max\<close> raise "Heap is empty." when the size
  is 0 and return an element otherwise; \<^verbatim>\<open>get_min\<close> returns the root.
\<close>

theorem observers_raise_exactly_when_empty:
  "shape s \<Longrightarrow>
   (size_h s = 0 \<longrightarrow>
      fst (get_min s) = Inl Heap_is_empty \<and> fst (get_max s) = Inl Heap_is_empty) \<and>
   (size_h s \<noteq> 0 \<longrightarrow>
      fst (get_min s) = Inr (heap s ! 1) \<and> (\<exists>v. fst (get_max s) = Inr v))"
  by (auto simp: get_min_def get_max_def shape_def)

theorem observers_raise_exactly_when_empty_witness:
  "shape init \<and> size_h init = 0 \<and>
   fst (get_min init) = Inl Heap_is_empty \<and> fst (get_max init) = Inl Heap_is_empty \<and>
   shape \<lparr>heap = [0, 1, 2], size_h = 2\<rparr> \<and> size_h \<lparr>heap = [0, 1, 2], size_h = 2\<rparr> \<noteq> 0 \<and>
   fst (get_min \<lparr>heap = [0, 1, 2], size_h = 2\<rparr>) = Inr 1"
  using observers_raise_exactly_when_empty [of init]
    observers_raise_exactly_when_empty [of "\<lparr>heap = [0, 1, 2], size_h = 2\<rparr>"]
  by (simp add: init_def shape_def)

end
